theory Spec2Isabelle
  imports Main "HOL-Library.AList" "HOL-Library.List_Lexorder"
begin

section \<open>Python strings\<close>

text \<open>
  A Python \<open>str\<close> is a sequence of Unicode code points, so a string is a list of
  natural numbers (an Isabelle \<open>char\<close> is a byte and cannot hold U+FEFF).
  \<open>ustr\<close> embeds an ASCII literal.
\<close>

type_synonym ustring = "nat list"

definition ustr :: "string \<Rightarrow> ustring" where
  "ustr s = map of_char s"

text \<open>
  \<open>str.isspace\<close> for one code point, which is also what \<open>\s\<close> matches in a
  \<open>str\<close> pattern of the \<open>re\<close> module.
\<close>

definition isspace :: "nat \<Rightarrow> bool" where
  "isspace c \<longleftrightarrow>
     (0x09 \<le> c \<and> c \<le> 0x0D) \<or> (0x1C \<le> c \<and> c \<le> 0x20) \<or> c = 0x85 \<or> c = 0xA0 \<or>
     c = 0x1680 \<or> (0x2000 \<le> c \<and> c \<le> 0x200A) \<or> c = 0x2028 \<or> c = 0x2029 \<or>
     c = 0x202F \<or> c = 0x205F \<or> c = 0x3000"

text \<open>\<open>s.strip()\<close>: leading and trailing whitespace removed.\<close>

definition strip :: "ustring \<Rightarrow> ustring" where
  "strip s = rev (dropWhile isspace (rev (dropWhile isspace s)))"

text \<open>\<open>s.lstrip(chars)\<close>: the leading characters that occur in \<open>chars\<close> removed.\<close>

definition lstrip :: "ustring \<Rightarrow> ustring \<Rightarrow> ustring" where
  "lstrip chars s = dropWhile (\<lambda>c. c \<in> set chars) s"

text \<open>\<open>str(n)\<close> for a non-negative integer: its decimal digits.\<close>

fun str_of_nat :: "nat \<Rightarrow> ustring" where
  "str_of_nat n = (if n < 10 then [48 + n] else str_of_nat (n div 10) @ [48 + n mod 10])"

declare str_of_nat.simps [simp del]

text \<open>\<open>s.split(sep)\<close> for a one-character separator, and \<open>sep.join(xs)\<close>.\<close>

fun split :: "nat \<Rightarrow> ustring \<Rightarrow> ustring list" where
  "split sep [] = [[]]"
| "split sep (c # cs) =
     (if c = sep then [] # split sep cs
      else (c # hd (split sep cs)) # tl (split sep cs))"

fun join :: "ustring \<Rightarrow> ustring list \<Rightarrow> ustring" where
  "join sep [] = []"
| "join sep [x] = x"
| "join sep (x # y # zs) = x @ sep @ join sep (y # zs)"

section \<open>Records, values and faults\<close>

text \<open>
  A field value is a \<open>str\<close> or a list of \<open>str\<close>. A parsed record is a Python
  \<open>dict\<close> from field name to value, kept as an association list in insertion order
  with distinct keys, as a \<open>dict\<close> keeps it.
\<close>

datatype pyval = Str ustring | StrList "ustring list"

type_synonym pydict = "(ustring \<times> pyval) list"

text \<open>
  The exceptions the parser and the renderer can raise: \<open>ParserError\<close> with its
  message, \<open>KeyError\<close> with the missing key, \<open>AttributeError\<close> (an attribute that
  is not there: \<open>str.extend\<close>, or \<open>self.inref\<close> before the first parse), and the bare
  \<open>Exception\<close> of \<open>_add_tag\<close>.
\<close>

datatype error = ParserError ustring | KeyError ustring | AttributeError | PyException

text \<open>Truth value of a field value, and of \<open>data.get(name)\<close>.\<close>

fun truthy :: "pyval option \<Rightarrow> bool" where
  "truthy None = False"
| "truthy (Some (Str s)) = (s \<noteq> [])"
| "truthy (Some (StrList l)) = (l \<noteq> [])"

text \<open>\<open>data.setdefault(name, value)\<close>.\<close>

definition setdefault :: "ustring \<Rightarrow> pyval \<Rightarrow> pydict \<Rightarrow> pydict" where
  "setdefault name val data =
     (case map_of data name of None \<Rightarrow> data @ [(name, val)] | Some _ \<Rightarrow> data)"

section \<open>The parser\<close>

text \<open>
  An instance of \<open>Parser\<close>: the class attributes \<open>START_TAG\<close> and \<open>END_TAG\<close>, the
  compiled \<open>PATTERN\<close> as the predicate \<open>bool(self.pattern.match(line))\<close>, the method
  \<open>content\<close>, the constructor arguments, and the attribute \<open>inref\<close>, which
  \<open>parselines\<close> and \<open>_parse_tag\<close> assign (\<open>None\<close>: not assigned yet).
  The defaults of \<open>mapping\<close>, \<open>list_tags\<close> and \<open>delimiter\<close> come from the module
  \<open>config\<close>; here they are always given. A key of \<open>delimiter\<close> may hold the
  value \<open>None\<close>.
\<close>

record parser =
  START_TAG :: ustring
  END_TAG :: ustring
  pattern :: "ustring \<Rightarrow> bool"
  content :: "ustring \<Rightarrow> pyval"
  mapping :: "ustring \<rightharpoonup> ustring"
  list_tags :: "ustring list"
  delimiter :: "ustring \<rightharpoonup> ustring option"
  enforce_list_tags :: bool
  inref :: "bool option"

text \<open>\<open>self.delimiter.get(tag)\<close>.\<close>

definition delimiter_get :: "parser \<Rightarrow> ustring \<Rightarrow> ustring option" where
  "delimiter_get self tag = (case delimiter self tag of None \<Rightarrow> None | Some d \<Rightarrow> d)"

definition add_single_tag :: "parser \<Rightarrow> ustring \<Rightarrow> pyval \<Rightarrow> pydict \<Rightarrow> pydict" where
  "add_single_tag self name val data =
     (if enforce_list_tags self \<or> map_of data name = None
      then setdefault name val data else data)"

text \<open>
  \<open>_add_list_tag\<close>: a falsy \<open>data.get(name)\<close> (absent, \<open>''\<close> or \<open>[]\<close>) is
  replaced; a non-empty list is extended in place; a non-empty \<open>str\<close> has no
  \<open>extend\<close>.
\<close>

definition add_list_tag :: "ustring \<Rightarrow> pyval \<Rightarrow> pydict \<Rightarrow> error + pydict" where
  "add_list_tag name val data =
     (let vs = (case val of StrList l \<Rightarrow> l | Str s \<Rightarrow> [s]) in
      if \<not> truthy (map_of data name) then Inr (AList.update name (StrList vs) data)
      else (case map_of data name of
              Some (StrList l) \<Rightarrow> Inr (AList.update name (StrList (l @ vs)) data)
            | _ \<Rightarrow> Inl AttributeError))"

text \<open>
  \<open>_add_tag\<close>: \<open>self.mapping[tag]\<close> comes first and raises \<open>KeyError\<close> on a tag
  that is not mapped.
\<close>

definition add_tag :: "parser \<Rightarrow> ustring \<Rightarrow> ustring \<Rightarrow> pydict \<Rightarrow> error + pydict" where
  "add_tag self tag line data =
     (case mapping self tag of
        None \<Rightarrow> Inl (KeyError tag)
      | Some name \<Rightarrow>
          (let val = content self line in
           if delimiter_get self tag \<noteq> None then Inl PyException
           else if tag \<in> set (list_tags self) then add_list_tag name val data
           else Inr (add_single_tag self name val data)))"

text \<open>The message of the \<open>ParserError\<close>, with the index in decimal.\<close>

definition missing_end :: "nat \<Rightarrow> ustring \<Rightarrow> ustring" where
  "missing_end index line =
     ustr ''Missing end of record tag in line '' @ str_of_nat index @ [0x3A, 0x0A, 0x20] @ line"

text \<open>
  \<open>_parse_tag\<close> returns its return value (\<open>data\<close> on \<open>END_TAG\<close>, \<open>None\<close> on the
  other paths), the dictionary \<open>data\<close> as it has mutated it, and \<open>self\<close> with
  \<open>inref\<close> as it has left it. On a raise both are as they were at the call.
\<close>

definition parse_tag ::
  "parser \<Rightarrow> nat \<Rightarrow> ustring \<Rightarrow> pydict \<Rightarrow> error + (pydict option \<times> pydict \<times> parser)" where
  "parse_tag self index line data =
     (let tag = take 2 line in
      if tag = START_TAG self then
        (case inref self of
           None \<Rightarrow> Inl AttributeError
         | Some True \<Rightarrow> Inl (ParserError (missing_end index line))
         | Some False \<Rightarrow>
             (case add_tag self tag line data of
                Inl e \<Rightarrow> Inl e
              | Inr data' \<Rightarrow> Inr (None, data', self\<lparr>inref := Some True\<rparr>)))
      else if tag = END_TAG self then Inr (Some data, data, self)
      else if mapping self tag \<noteq> None then
        (case add_tag self tag line data of
           Inl e \<Rightarrow> Inl e
         | Inr data' \<Rightarrow> Inr (None, data', self))
      else Inr (None, data, self))"

text \<open>
  The characters of the string literal that \<open>parselines\<close> passes to \<open>lstrip\<close>.
  The literal is a backslash, \<open>u\<close> and the five letters \<open>efeff\<close>; the escape takes
  four hexadecimal digits, so the string is U+EFEF followed by the letter \<open>f\<close>.
\<close>

definition lstrip_chars :: ustring where
  "lstrip_chars = [0xEFEF, 0x66]"

text \<open>Truth value of what \<open>_parse_tag\<close> returns: \<open>None\<close> or a dictionary.\<close>

fun truthy_dict :: "pydict option \<Rightarrow> bool" where
  "truthy_dict None = False"
| "truthy_dict (Some d) = (d \<noteq> [])"

text \<open>
  The loop of \<open>parselines\<close> from index \<open>i\<close>, on the local variables \<open>content\<close>
  (here \<open>contents\<close>) and \<open>data\<close> and on \<open>self\<close>. It ends with the locals and
  \<open>self\<close>, or with the exception and \<open>self\<close> as the raise left it.
\<close>

fun parselines_loop ::
  "nat \<Rightarrow> ustring list \<Rightarrow> pydict list \<Rightarrow> pydict \<Rightarrow> parser \<Rightarrow>
     (error + pydict list \<times> pydict) \<times> parser" where
  "parselines_loop i [] contents data self = (Inr (contents, data), self)"
| "parselines_loop i (raw # rest) contents data self =
     (let line = (if i = 0 then lstrip lstrip_chars raw else raw) in
      if strip line = [] then parselines_loop (Suc i) rest contents data self
      else if pattern self line then
        (case parse_tag self i line data of
           Inl e \<Rightarrow> (Inl e, self)
         | Inr (ret, data', self') \<Rightarrow>
             if truthy_dict ret
             then parselines_loop (Suc i) rest (contents @ [data']) [] (self'\<lparr>inref := Some False\<rparr>)
             else parselines_loop (Suc i) rest contents data' self')
      else parselines_loop (Suc i) rest contents data self)"

text \<open>\<open>parselines\<close>: the result (the list \<open>content\<close>, or the exception) and \<open>self\<close> afterwards.\<close>

definition parselines :: "parser \<Rightarrow> ustring list \<Rightarrow> (error + pydict list) \<times> parser" where
  "parselines self lines =
     (case parselines_loop 0 lines [] [] (self\<lparr>inref := Some False\<rparr>) of
        (res, self') \<Rightarrow> (map_sum id fst res, self'))"

subsection \<open>The RIS grammar\<close>

definition upper :: "nat \<Rightarrow> bool" where
  "upper c \<longleftrightarrow> 0x41 \<le> c \<and> c \<le> 0x5A"

definition digit :: "nat \<Rightarrow> bool" where
  "digit c \<longleftrightarrow> 0x30 \<le> c \<and> c \<le> 0x39"

text \<open>
  \<open>re.match\<close> of \<open>^[A-Z][A-Z0-9]  - |^ER  -\s*$\<close>. In the second alternative
  \<open>\s*$\<close> matches exactly when only whitespace follows: \<open>$\<close> holds at the end
  and before a last newline, which \<open>\s*\<close> can leave unread.
\<close>

definition ris_pattern :: "ustring \<Rightarrow> bool" where
  "ris_pattern line \<longleftrightarrow>
     (case line of
        a # b # rest \<Rightarrow> upper a \<and> (upper b \<or> digit b) \<and> take 4 rest = ustr ''  - ''
      | _ \<Rightarrow> False)
     \<or> (take 5 line = ustr ''ER  -'' \<and> list_all isspace (drop 5 line))"

definition ris_content :: "ustring \<Rightarrow> pyval" where
  "ris_content line = Str (strip (drop 6 line))"

text \<open>A new \<open>RisParser(mapping, list_tags, delimiter, enforce_list_tags)\<close>.\<close>

definition RisParser ::
  "(ustring \<rightharpoonup> ustring) \<Rightarrow> ustring list \<Rightarrow> (ustring \<rightharpoonup> ustring option) \<Rightarrow> bool \<Rightarrow> parser" where
  "RisParser m lt d e =
     \<lparr>START_TAG = ustr ''TY'', END_TAG = ustr ''ER'', pattern = ris_pattern,
      content = ris_content, mapping = m, list_tags = lt, delimiter = d,
      enforce_list_tags = e, inref = None\<rparr>"


section \<open>The citation renderer\<close>

text \<open>Iterating over a field value: a list gives its elements, a \<open>str\<close> its characters.\<close>

fun iter_strs :: "pyval \<Rightarrow> ustring list" where
  "iter_strs (StrList l) = l"
| "iter_strs (Str s) = map (\<lambda>c. [c]) s"

text \<open>
  A value inside an f-string. A list is rendered by Python's \<open>repr\<close>, whose escaping
  rules depend on the Unicode database; \<open>cite\<close> takes that function as the parameter
  \<open>repr\<close>. \<open>repr_plain\<close> is \<open>repr\<close> on lists of strings that need no escaping.
\<close>

fun format_val :: "(ustring list \<Rightarrow> ustring) \<Rightarrow> pyval \<Rightarrow> ustring" where
  "format_val repr (Str s) = s"
| "format_val repr (StrList l) = repr l"

definition repr_plain :: "ustring list \<Rightarrow> ustring" where
  "repr_plain l = ustr ''['' @ join (ustr '', '') (map (\<lambda>s. [0x27] @ s @ [0x27]) l) @ ustr '']''"

text \<open>\<open>record.get(key, '')\<close>.\<close>

definition get_default :: "pydict \<Rightarrow> ustring \<Rightarrow> pyval" where
  "get_default rcd key = (case map_of rcd key of None \<Rightarrow> Str [] | Some v \<Rightarrow> v)"

text \<open>
  The lambda \<open>sep\<close>, with \<open>len(authors)\<close> as \<open>n\<close>; the comparison is on
  integers, where \<open>n - 2\<close> can be negative.
\<close>

definition sep :: "nat \<Rightarrow> nat \<Rightarrow> ustring" where
  "sep n i = (if int i = int n - 2 \<and> n > 1 then ustr '', &'' else ustr '','')"

text \<open>The author string of one record, from \<open>record["authors"]\<close>.\<close>

definition cite_authors :: "pyval \<Rightarrow> ustring" where
  "cite_authors v =
     (let authors = map (\<lambda>x. rev (split 0x20 x)) (iter_strs v) in
      butlast (join (ustr '' '')
        (map (\<lambda>(i, a). hd a @ ustr '', '' @ take 1 (a ! 1) @ ustr ''.'' @ sep (length authors) i)
           (filter (\<lambda>(i, a). length a > 1) (enumerate 0 authors)))))"

text \<open>One pass of the loop body of \<open>cite\<close>: the line appended to \<open>output\<close>.\<close>

definition cite_record :: "(ustring list \<Rightarrow> ustring) \<Rightarrow> pydict \<Rightarrow> bool \<Rightarrow> error + ustring" where
  "cite_record repr rcd newline =
     (case map_of rcd (ustr ''authors'') of
        None \<Rightarrow> Inl (KeyError (ustr ''authors''))
      | Some v \<Rightarrow>
          (let line = cite_authors v @ ustr '' ('' @ format_val repr (get_default rcd (ustr ''year''))
                 @ ustr ''). '' @ format_val repr (get_default rcd (ustr ''primary_title''))
                 @ ustr ''. '' @ format_val repr (get_default rcd (ustr ''journal_name''))
                 @ ustr ''. '' @ format_val repr (get_default rcd (ustr ''doi''))
           in Inr (if \<not> newline then line else line @ [0x0A])))"

fun cite_loop ::
  "(ustring list \<Rightarrow> ustring) \<Rightarrow> pydict list \<Rightarrow> bool \<Rightarrow> ustring list \<Rightarrow> error + ustring list" where
  "cite_loop repr [] newline output = Inr output"
| "cite_loop repr (rcd # rest) newline output =
     (case cite_record repr rcd newline of
        Inl e \<Rightarrow> Inl e
      | Inr line \<Rightarrow> cite_loop repr rest newline (output @ [line]))"

text \<open>\<open>sorted\<close> compares strings code point by code point, as the order on lists does.\<close>

definition cite :: "(ustring list \<Rightarrow> ustring) \<Rightarrow> pydict list \<Rightarrow> bool \<Rightarrow> error + ustring" where
  "cite repr contents newline =
     (case cite_loop repr contents newline [] of
        Inl e \<Rightarrow> Inl e
      | Inr output \<Rightarrow> Inr (join [0x0A] (sort output)))"


section \<open>Auxiliary notions for the statements\<close>

text \<open>
  The classes of lines, as the loop of \<open>parselines\<close> and \<open>_parse_tag\<close> tell them
  apart: a line that reaches \<open>_parse_tag\<close>, one that takes its \<open>START_TAG\<close> case,
  one that takes its \<open>END_TAG\<close> case, and one for which \<open>_add_tag\<close> is called
  (unless the \<open>START_TAG\<close> case raises first).
\<close>

definition tag_line :: "parser \<Rightarrow> ustring \<Rightarrow> bool" where
  "tag_line self line \<longleftrightarrow> strip line \<noteq> [] \<and> pattern self line"

definition start_line :: "parser \<Rightarrow> ustring \<Rightarrow> bool" where
  "start_line self line \<longleftrightarrow> tag_line self line \<and> take 2 line = START_TAG self"

definition end_line :: "parser \<Rightarrow> ustring \<Rightarrow> bool" where
  "end_line self line \<longleftrightarrow>
     tag_line self line \<and> take 2 line \<noteq> START_TAG self \<and> take 2 line = END_TAG self"

definition field_line :: "parser \<Rightarrow> ustring \<Rightarrow> bool" where
  "field_line self line \<longleftrightarrow>
     tag_line self line \<and> \<not> end_line self line \<and>
     (start_line self line \<or> mapping self (take 2 line) \<noteq> None)"

text \<open>The lines as the loop sees them: the first one after \<open>lstrip\<close>.\<close>

definition first_stripped :: "ustring list \<Rightarrow> ustring list" where
  "first_stripped lines = (case lines of [] \<Rightarrow> [] | l # ls \<Rightarrow> lstrip lstrip_chars l # ls)"

text \<open>
  Start and end lines alternate: no start line while a record is open (\<open>inside\<close>), no
  end line while none is.
\<close>

fun alternating :: "parser \<Rightarrow> bool \<Rightarrow> ustring list \<Rightarrow> bool" where
  "alternating self inside [] = True"
| "alternating self inside (l # ls) =
     (if start_line self l then \<not> inside \<and> alternating self True ls
      else if end_line self l then inside \<and> alternating self False ls
      else alternating self inside ls)"

text \<open>Two exceptions of the same class; the message of a \<open>ParserError\<close> may differ.\<close>

fun same_fault :: "error \<Rightarrow> error \<Rightarrow> bool" where
  "same_fault (ParserError m) (ParserError m') = True"
| "same_fault e e' = (e = e')"

text \<open>A small configuration of the RIS parser and a record for the renderer.\<close>

definition example_mapping :: "ustring \<rightharpoonup> ustring" where
  "example_mapping =
     [ustr ''TY'' \<mapsto> ustr ''type'', ustr ''AU'' \<mapsto> ustr ''authors'', ustr ''PY'' \<mapsto> ustr ''year'']"

definition example_parser :: "bool \<Rightarrow> parser" where
  "example_parser flag = RisParser example_mapping [ustr ''AU''] Map.empty flag"

definition doe_record :: "ustring \<Rightarrow> pydict" where
  "doe_record author =
     [(ustr ''authors'', StrList [author]), (ustr ''year'', Str (ustr ''2020'')),
      (ustr ''primary_title'', Str (ustr ''T'')), (ustr ''journal_name'', Str (ustr ''J'')),
      (ustr ''doi'', Str (ustr ''D''))]"

text \<open>
  Every field that a list tag maps to holds a list when it is there: then
  \<open>_add_list_tag\<close> never meets a \<open>str\<close> to extend.
\<close>

definition list_fields_ok :: "parser \<Rightarrow> pydict \<Rightarrow> bool" where
  "list_fields_ok self data \<longleftrightarrow>
     (\<forall>t \<in> set (list_tags self). \<forall>n v. mapping self t = Some n \<and> map_of data n = Some v
        \<longrightarrow> (\<exists>l. v = StrList l))"

text \<open>A configuration whose delimiter mapping has entries.\<close>

definition delimited_parser :: parser where
  "delimited_parser =
     RisParser example_mapping [ustr ''AU'']
       [ustr ''AU'' \<mapsto> Some (ustr '';''), ustr ''ZZ'' \<mapsto> Some (ustr '';''),
        ustr ''ER'' \<mapsto> Some (ustr '';'')] True"

text \<open>
  The values a line contributes to a list field: \<open>_add_list_tag\<close> takes a list as it
  is and wraps anything else in a list. A line of a tag is a line that reaches
  \<open>_parse_tag\<close> with that tag.
\<close>

definition list_values :: "parser \<Rightarrow> ustring \<Rightarrow> ustring list" where
  "list_values self line = (case content self line of StrList l \<Rightarrow> l | Str s \<Rightarrow> [s])"

definition tagged_with :: "parser \<Rightarrow> ustring \<Rightarrow> ustring \<Rightarrow> bool" where
  "tagged_with self tag line \<longleftrightarrow> tag_line self line \<and> take 2 line = tag"

section \<open>Evaluation\<close>

lemmas parser_defs =
  parselines_def parse_tag_def add_tag_def add_list_tag_def add_single_tag_def setdefault_def
  delimiter_get_def missing_end_def Let_def

lemmas ris_defs =
  RisParser_def ris_pattern_def ris_content_def strip_def lstrip_def lstrip_chars_def
  isspace_def upper_def digit_def ustr_def example_parser_def example_mapping_def

lemmas cite_defs =
  cite_def cite_record_def cite_authors_def get_default_def sep_def doe_record_def ustr_def
  Let_def enumerate_eq_zip

section \<open>Field rules\<close>




section \<open>The renderer on one record\<close>

text \<open>
  C8. The record with \<open>authors = ["Doe John"]\<close> renders as
  \<open>John, D. (2020). T. J. D\<close>: the last word of the author string comes first and
  the word before it is reduced to its initial. A newline follows when \<open>newline\<close> is
  set. The line \<open>Doe, J. (2020). T. J. D\<close> is what \<open>authors = ["John Doe"]\<close> gives.
\<close>

theorem cite_doe_record:
  "cite repr [doe_record (ustr ''Doe John'')] True = Inr (ustr ''John, D. (2020). T. J. D'' @ [0x0A]) \<and>
   cite repr [doe_record (ustr ''Doe John'')] False = Inr (ustr ''John, D. (2020). T. J. D'') \<and>
   cite repr [doe_record (ustr ''John Doe'')] True = Inr (ustr ''Doe, J. (2020). T. J. D'' @ [0x0A]) \<and>
   cite repr [doe_record (ustr ''John Doe'')] False = Inr (ustr ''Doe, J. (2020). T. J. D'')"
  by (simp add: cite_defs)

theorem cite_doe_record_counterexample:
  "cite repr_plain [doe_record (ustr ''Doe John'')] True
     \<noteq> Inr (ustr ''Doe, J. (2020). T. J. D'' @ [0x0A]) \<and>
   cite repr_plain [doe_record (ustr ''Doe John'')] False
     \<noteq> Inr (ustr ''Doe, J. (2020). T. J. D'')"
  by (simp add: cite_defs)

section \<open>The first line\<close>

text \<open>
  C5. A byte-order mark U+FEFF at the start of the first line is not among the characters
  that \<open>lstrip\<close> removes, and a line that starts with it does not match the RIS
  pattern: the start line of the first record is skipped and the record is lost.
  Without the mark the record is parsed.
\<close>

theorem byte_order_mark_kept:
  "lstrip lstrip_chars (0xFEFF # s) = 0xFEFF # s \<and>
   \<not> ris_pattern (0xFEFF # s) \<and>
   fst (parselines (example_parser True) [0xFEFF # ustr ''TY  - JOUR'', ustr ''ER  - '']) = Inr [] \<and>
   fst (parselines (example_parser True) [ustr ''TY  - JOUR'', ustr ''ER  - ''])
     = Inr [[(ustr ''type'', Str (ustr ''JOUR''))]]"
  by (simp add: parser_defs ris_defs split: list.splits)

section \<open>Fields outside a record\<close>

lemma add_tag_inref [simp]: "add_tag (self\<lparr>inref := b\<rparr>) tag line data = add_tag self tag line data"
  by (simp add: add_tag_def delimiter_get_def add_single_tag_def Let_def split: option.splits)

text \<open>
  C10. For a line whose tag is neither \<open>START_TAG\<close> nor \<open>END_TAG\<close> and is mapped,
  \<open>_parse_tag\<close> is \<open>_add_tag\<close> on the working record whatever \<open>inref\<close> says, so
  also when no record is open. Mapped lines followed by an end line, with no start line,
  give a record with their fields.
\<close>

theorem field_added_outside_record:
  assumes "take 2 line \<noteq> START_TAG self" and "take 2 line \<noteq> END_TAG self"
    and "mapping self (take 2 line) = Some name"
  shows "parse_tag (self\<lparr>inref := Some b\<rparr>) index line data
           = (case add_tag self (take 2 line) line data of
                Inl e \<Rightarrow> Inl e
              | Inr data' \<Rightarrow> Inr (None, data', self\<lparr>inref := Some b\<rparr>)) \<and>
         fst (parselines (example_parser True)
                [ustr ''AU  - Doe John'', ustr ''PY  - 2020'', ustr ''ER  - ''])
           = Inr [[(ustr ''authors'', StrList [ustr ''Doe John'']), (ustr ''year'', Str (ustr ''2020''))]]"
proof
  show "parse_tag (self\<lparr>inref := Some b\<rparr>) index line data
           = (case add_tag self (take 2 line) line data of
                Inl e \<Rightarrow> Inl e
              | Inr data' \<Rightarrow> Inr (None, data', self\<lparr>inref := Some b\<rparr>))"
    using assms by (simp add: parse_tag_def Let_def)
  show "fst (parselines (example_parser True)
                [ustr ''AU  - Doe John'', ustr ''PY  - 2020'', ustr ''ER  - ''])
           = Inr [[(ustr ''authors'', StrList [ustr ''Doe John'']), (ustr ''year'', Str (ustr ''2020''))]]"
    by (simp add: parser_defs ris_defs)
qed

theorem field_added_outside_record_witness:
  "take 2 (ustr ''AU  - Doe John'') \<noteq> START_TAG (example_parser True) \<and>
   take 2 (ustr ''AU  - Doe John'') \<noteq> END_TAG (example_parser True) \<and>
   mapping (example_parser True) (take 2 (ustr ''AU  - Doe John'')) = Some (ustr ''authors'') \<and>
   parse_tag ((example_parser True)\<lparr>inref := Some False\<rparr>) 0 (ustr ''AU  - Doe John'') []
     = Inr (None, [(ustr ''authors'', StrList [ustr ''Doe John''])],
            (example_parser True)\<lparr>inref := Some False\<rparr>)"
proof -
  have h: "take 2 (ustr ''AU  - Doe John'') \<noteq> START_TAG (example_parser True)"
    "take 2 (ustr ''AU  - Doe John'') \<noteq> END_TAG (example_parser True)"
    "mapping (example_parser True) (take 2 (ustr ''AU  - Doe John'')) = Some (ustr ''authors'')"
    by (simp_all add: ris_defs)
  have a: "add_tag (example_parser True) (take 2 (ustr ''AU  - Doe John'')) (ustr ''AU  - Doe John'') []
      = Inr [(ustr ''authors'', StrList [ustr ''Doe John''])]"
    by (simp add: parser_defs ris_defs)
  show ?thesis
    using h conjunct1 [OF field_added_outside_record [OF h, of False 0 "[]"]] by (simp add: a)
qed

section \<open>The state between calls\<close>

lemma parse_tag_self:
  "parse_tag self i line data = Inr (ret, data', self') \<Longrightarrow> \<exists>x. self' = self\<lparr>inref := x\<rparr>"
  by (auto simp: parse_tag_def Let_def split: if_splits option.splits bool.splits sum.splits
      intro: exI [of _ "inref self"])

lemma parselines_loop_self:
  "parselines_loop i ls contents data self = (res, self') \<Longrightarrow> \<exists>x. self' = self\<lparr>inref := x\<rparr>"
proof (induction ls arbitrary: i contents data self)
  case Nil
  then show ?case by (auto intro: exI [of _ "inref self"])
next
  case (Cons raw rest)
  define line where "line = (if i = 0 then lstrip lstrip_chars raw else raw)"
  show ?case
  proof (cases "strip line \<noteq> [] \<and> pattern self line")
    case False
    then have "parselines_loop (Suc i) rest contents data self = (res, self')"
      using Cons.prems by (auto simp: line_def Let_def split: if_splits)
    then show ?thesis by (rule Cons.IH)
  next
    case True
    show ?thesis
    proof (cases "parse_tag self i line data")
      case (Inl e)
      then have "self' = self"
        using Cons.prems True by (auto simp: line_def Let_def split: if_splits)
      then show ?thesis by (auto intro: exI [of _ "inref self"])
    next
      case (Inr r)
      obtain ret data' self1 where r: "r = (ret, data', self1)"
        by (cases r) auto
      obtain x where x: "self1 = self\<lparr>inref := x\<rparr>"
        using parse_tag_self Inr r by blast
      have "\<exists>y. self' = (self\<lparr>inref := x\<rparr>)\<lparr>inref := y\<rparr>"
      proof (cases "truthy_dict ret")
        case True
        then have "parselines_loop (Suc i) rest (contents @ [data']) []
              ((self\<lparr>inref := x\<rparr>)\<lparr>inref := Some False\<rparr>) = (res, self')"
          using Cons.prems \<open>strip line \<noteq> [] \<and> pattern self line\<close> Inr r x
          by (auto simp: line_def Let_def split: if_splits)
        from Cons.IH [OF this] show ?thesis by auto
      next
        case False
        then have "parselines_loop (Suc i) rest contents data' (self\<lparr>inref := x\<rparr>) = (res, self')"
          using Cons.prems \<open>strip line \<noteq> [] \<and> pattern self line\<close> Inr r x
          by (auto simp: line_def Let_def split: if_splits)
        from Cons.IH [OF this] show ?thesis by auto
      qed
      then show ?thesis by auto
    qed
  qed
qed

text \<open>
  C9. \<open>parselines\<close> resets \<open>inref\<close> and its two locals when it starts, and it changes
  nothing else of \<open>self\<close>. So a second call on an instance, however the first one
  ended, returns what a new instance of the same configuration returns.
\<close>

theorem parse_state_not_persisted:
  "fst (parselines (snd (parselines self lines1)) lines2)
     = fst (parselines (self\<lparr>inref := None\<rparr>) lines2)"
proof -
  obtain res self' where p: "parselines_loop 0 lines1 [] [] (self\<lparr>inref := Some False\<rparr>) = (res, self')"
    by (cases "parselines_loop 0 lines1 [] [] (self\<lparr>inref := Some False\<rparr>)") auto
  obtain x where "self' = (self\<lparr>inref := Some False\<rparr>)\<lparr>inref := x\<rparr>"
    using parselines_loop_self [OF p] by blast
  then have "snd (parselines self lines1) = self\<lparr>inref := x\<rparr>"
    by (simp add: parselines_def p)
  then show ?thesis by (simp add: parselines_def)
qed

theorem parse_state_not_persisted_witness:
  "fst (parselines (snd (parselines (example_parser True) [ustr ''TY  - JOUR'']))
          [ustr ''TY  - BOOK'', ustr ''ER  - ''])
     = Inr [[(ustr ''type'', Str (ustr ''BOOK''))]]"
proof -
  have "fst (parselines ((example_parser True)\<lparr>inref := None\<rparr>) [ustr ''TY  - BOOK'', ustr ''ER  - ''])
      = Inr [[(ustr ''type'', Str (ustr ''BOOK''))]]"
    by (simp add: parser_defs ris_defs)
  then show ?thesis
    using parse_state_not_persisted [of "example_parser True" "[ustr ''TY  - JOUR'']"
        "[ustr ''TY  - BOOK'', ustr ''ER  - '']"]
    by simp
qed


section \<open>The loop, line by line\<close>

lemma tag_line_inref [simp]: "tag_line (self\<lparr>inref := x\<rparr>) l = tag_line self l"
  by (simp add: tag_line_def)

lemma start_line_inref [simp]: "start_line (self\<lparr>inref := x\<rparr>) l = start_line self l"
  by (simp add: start_line_def)

lemma end_line_inref [simp]: "end_line (self\<lparr>inref := x\<rparr>) l = end_line self l"
  by (simp add: end_line_def)

lemma field_line_inref [simp]: "field_line (self\<lparr>inref := x\<rparr>) l = field_line self l"
  by (simp add: field_line_def)

lemma delimiter_get_inref [simp]: "delimiter_get (self\<lparr>inref := x\<rparr>) t = delimiter_get self t"
  by (simp add: delimiter_get_def)

lemma alternating_inref [simp]: "alternating (self\<lparr>inref := x\<rparr>) b ls = alternating self b ls"
  by (induction ls arbitrary: b) auto

lemma loop_skip:
  assumes "i = 0 \<longrightarrow> lstrip lstrip_chars raw = raw" and "\<not> tag_line self raw"
  shows "parselines_loop i (raw # rest) contents data self
           = parselines_loop (Suc i) rest contents data self"
  using assms by (auto simp: tag_line_def Let_def)

lemma loop_tag:
  assumes "i = 0 \<longrightarrow> lstrip lstrip_chars raw = raw" and "tag_line self raw"
  shows "parselines_loop i (raw # rest) contents data self
           = (case parse_tag self i raw data of
                Inl e \<Rightarrow> (Inl e, self)
              | Inr (ret, data', self') \<Rightarrow>
                  if truthy_dict ret
                  then parselines_loop (Suc i) rest (contents @ [data']) [] (self'\<lparr>inref := Some False\<rparr>)
                  else parselines_loop (Suc i) rest contents data' self')"
  using assms by (auto simp: tag_line_def Let_def)

lemma loop_append:
  assumes "parselines_loop i xs contents data self = (Inr (contents', data'), self')"
  shows "parselines_loop i (xs @ ys) contents data self
           = parselines_loop (i + length xs) ys contents' data' self'"
  using assms
proof (induction xs arbitrary: i contents data self)
  case Nil
  then show ?case by simp
next
  case (Cons raw rest)
  define line where "line = (if i = 0 then lstrip lstrip_chars raw else raw)"
  have step: "\<And>c d s. parselines_loop (Suc i) rest c d s = (Inr (contents', data'), self') \<Longrightarrow>
      parselines_loop (Suc i) (rest @ ys) c d s
        = parselines_loop (i + length (raw # rest)) ys contents' data' self'"
    using Cons.IH by simp
  show ?case
  proof (cases "strip line \<noteq> [] \<and> pattern self line")
    case False
    then have "parselines_loop (Suc i) rest contents data self = (Inr (contents', data'), self')"
      using Cons.prems by (auto simp: line_def Let_def split: if_splits)
    from step [OF this] show ?thesis
      using False by (auto simp: line_def Let_def)
  next
    case True
    show ?thesis
    proof (cases "parse_tag self i line data")
      case (Inl e)
      then show ?thesis
        using True Cons.prems by (auto simp: line_def Let_def split: if_splits)
    next
      case (Inr r)
      obtain ret d1 self1 where r: "r = (ret, d1, self1)"
        by (cases r) auto
      show ?thesis
      proof (cases "truthy_dict ret")
        case t: True
        then have "parselines_loop (Suc i) rest (contents @ [d1]) [] (self1\<lparr>inref := Some False\<rparr>)
            = (Inr (contents', data'), self')"
          using True Inr r Cons.prems by (auto simp: line_def Let_def split: if_splits)
        from step [OF this] show ?thesis
          using True Inr r t by (auto simp: line_def Let_def)
      next
        case f: False
        then have "parselines_loop (Suc i) rest contents d1 self1 = (Inr (contents', data'), self')"
          using True Inr r Cons.prems by (auto simp: line_def Let_def split: if_splits)
        from step [OF this] show ?thesis
          using True Inr r f by (auto simp: line_def Let_def)
      qed
    qed
  qed
qed

lemma loop_first_stripped:
  "parselines_loop 0 lines contents data self
     = parselines_loop 0 (first_stripped lines) contents data self"
  by (cases lines) (simp_all add: first_stripped_def lstrip_def Let_def)

lemma parselines_loop_result:
  "fst (parselines self lines)
     = map_sum id fst (fst (parselines_loop 0 lines [] [] (self\<lparr>inref := Some False\<rparr>)))"
  by (simp add: parselines_def split: prod.splits)

text \<open>What the lines before a line leave: the locals and \<open>self\<close>, when none of them raised.\<close>

lemma loop_after_prefix:
  assumes "parselines_loop 0 pre [] [] (self\<lparr>inref := Some False\<rparr>) = (Inr (contents, data), s)"
  shows "fst (parselines self (pre @ rest))
           = map_sum id fst (fst (parselines_loop (length pre) rest contents data s))"
    and "\<exists>x. s = self\<lparr>inref := x\<rparr>"
proof -
  show "fst (parselines self (pre @ rest))
           = map_sum id fst (fst (parselines_loop (length pre) rest contents data s))"
    by (simp add: parselines_loop_result loop_append [OF assms])
  obtain x where "s = (self\<lparr>inref := Some False\<rparr>)\<lparr>inref := x\<rparr>"
    using parselines_loop_self [OF assms] by blast
  then show "\<exists>x. s = self\<lparr>inref := x\<rparr>" by auto
qed

section \<open>The two faults\<close>

text \<open>
  C4. When the lines before a start line have left a record open, the parse raises
  \<open>ParserError\<close>; its message holds the index of the line, counted from 0, in decimal
  and the text of the line.
\<close>

theorem start_while_open_raises:
  assumes "parselines_loop 0 pre [] [] (self\<lparr>inref := Some False\<rparr>) = (Inr (contents, data), s)"
    and "inref s = Some True"
    and "start_line self line"
  shows "fst (parselines self (pre @ line # post))
           = Inl (ParserError (ustr ''Missing end of record tag in line '' @ str_of_nat (length pre)
                    @ [0x3A, 0x0A, 0x20] @ line))"
proof -
  obtain x where s: "s = self\<lparr>inref := x\<rparr>"
    using loop_after_prefix(2) [OF assms(1)] by blast
  have "pre \<noteq> []"
    using assms(1,2) by auto
  then have i: "length pre = 0 \<longrightarrow> lstrip lstrip_chars line = line"
    by simp
  have t: "tag_line s line"
    using assms(3) by (simp add: s start_line_def)
  have "take 2 line = START_TAG s"
    using assms(3) by (simp add: s start_line_def)
  then have "parse_tag s (length pre) line data = Inl (ParserError (missing_end (length pre) line))"
    using assms(2) by (simp add: parse_tag_def Let_def)
  then have "fst (parselines_loop (length pre) (line # post) contents data s)
      = Inl (ParserError (missing_end (length pre) line))"
    by (simp add: loop_tag [OF i t] del: parselines_loop.simps)
  then show ?thesis
    by (simp add: loop_after_prefix(1) [OF assms(1)] missing_end_def)
qed

theorem start_while_open_raises_witness:
  "parselines_loop 0 [ustr ''TY  - JOUR'', ustr ''AU  - Doe John''] [] []
       ((example_parser True)\<lparr>inref := Some False\<rparr>)
     = (Inr ([], [(ustr ''type'', Str (ustr ''JOUR'')), (ustr ''authors'', StrList [ustr ''Doe John''])]),
        (example_parser True)\<lparr>inref := Some True\<rparr>) \<and>
   inref ((example_parser True)\<lparr>inref := Some True\<rparr>) = Some True \<and>
   start_line (example_parser True) (ustr ''TY  - BOOK'') \<and>
   fst (parselines (example_parser True)
          ([ustr ''TY  - JOUR'', ustr ''AU  - Doe John''] @ ustr ''TY  - BOOK'' # [ustr ''ER  - '']))
     = Inl (ParserError (ustr ''Missing end of record tag in line 2'' @ [0x3A, 0x0A, 0x20]
              @ ustr ''TY  - BOOK''))"
proof -
  have a: "parselines_loop 0 [ustr ''TY  - JOUR'', ustr ''AU  - Doe John''] [] []
       ((example_parser True)\<lparr>inref := Some False\<rparr>)
     = (Inr ([], [(ustr ''type'', Str (ustr ''JOUR'')), (ustr ''authors'', StrList [ustr ''Doe John''])]),
        (example_parser True)\<lparr>inref := Some True\<rparr>)"
    by (simp add: parser_defs ris_defs)
  have b: "inref ((example_parser True)\<lparr>inref := Some True\<rparr>) = Some True"
    by simp
  have c: "start_line (example_parser True) (ustr ''TY  - BOOK'')"
    by (simp add: start_line_def tag_line_def ris_defs)
  have d: "str_of_nat (length [ustr ''TY  - JOUR'', ustr ''AU  - Doe John'']) = ustr ''2''"
    by (simp add: str_of_nat.simps ustr_def)
  have e: "fst (parselines (example_parser True)
          ([ustr ''TY  - JOUR'', ustr ''AU  - Doe John''] @ ustr ''TY  - BOOK'' # [ustr ''ER  - '']))
     = Inl (ParserError (ustr ''Missing end of record tag in line 2'' @ [0x3A, 0x0A, 0x20]
              @ ustr ''TY  - BOOK''))"
    using start_while_open_raises [OF a b c, of "[ustr ''ER  - '']"]
    unfolding d by (simp add: ustr_def)
  show ?thesis
    by (intro conjI a b c e)
qed


lemma loop_tag_seen:
  assumes "line = (if i = 0 then lstrip lstrip_chars raw else raw)" and "tag_line self line"
  shows "parselines_loop i (raw # rest) contents data self
           = (case parse_tag self i line data of
                Inl e \<Rightarrow> (Inl e, self)
              | Inr (ret, data', self') \<Rightarrow>
                  if truthy_dict ret
                  then parselines_loop (Suc i) rest (contents @ [data']) [] (self'\<lparr>inref := Some False\<rparr>)
                  else parselines_loop (Suc i) rest contents data' self')"
  using assms by (auto simp: tag_line_def Let_def)

text \<open>
  C7. The delimiter mapping is read in \<open>_add_tag\<close> only. When the parse reaches a
  line whose field is to be added (a start line while no record is open, or a line of
  another mapped tag) and the delimiter mapping has a value other than \<open>None\<close> for its
  tag, the parse raises the bare \<open>Exception\<close>, which is not a \<open>ParserError\<close>.
\<close>

theorem delimiter_fault:
  assumes "parselines_loop 0 pre [] [] (self\<lparr>inref := Some False\<rparr>) = (Inr (contents, data), s)"
    and "line = (if pre = [] then lstrip lstrip_chars raw else raw)"
    and "field_line self line"
    and "start_line self line \<longrightarrow> inref s = Some False"
    and "mapping self (take 2 line) = Some name"
    and "delimiter_get self (take 2 line) = Some dl"
  shows "fst (parselines self (pre @ raw # post)) = Inl PyException \<and>
         (\<forall>m. PyException \<noteq> ParserError m)"
proof -
  obtain x where s: "s = self\<lparr>inref := x\<rparr>"
    using loop_after_prefix(2) [OF assms(1)] by blast
  have l: "line = (if length pre = 0 then lstrip lstrip_chars raw else raw)"
    using assms(2) by simp
  have t: "tag_line s line"
    using assms(3) by (simp add: s field_line_def)
  have a: "add_tag s (take 2 line) line data = Inl PyException"
    using assms(5,6) by (simp add: s add_tag_def)
  have "parse_tag s (length pre) line data = Inl PyException"
  proof (cases "start_line self line")
    case True
    then show ?thesis
      using assms(4) a by (simp add: s parse_tag_def start_line_def)
  next
    case False
    then have "take 2 line \<noteq> START_TAG s" "take 2 line \<noteq> END_TAG s"
      using assms(3) by (auto simp: s field_line_def start_line_def end_line_def)
    then show ?thesis
      using assms(5) a by (simp add: s parse_tag_def)
  qed
  then have "fst (parselines_loop (length pre) (raw # post) contents data s) = Inl PyException"
    by (simp add: loop_tag_seen [OF l t] del: parselines_loop.simps)
  then show ?thesis
    by (simp add: loop_after_prefix(1) [OF assms(1)])
qed

theorem delimiter_fault_witness:
  "fst (parselines delimited_parser ([ustr ''TY  - JOUR''] @ ustr ''AU  - Doe John; Roe Jane'' # [ustr ''ER  - '']))
     = Inl PyException"
proof -
  have a: "parselines_loop 0 [ustr ''TY  - JOUR''] [] [] (delimited_parser\<lparr>inref := Some False\<rparr>)
      = (Inr ([], [(ustr ''type'', Str (ustr ''JOUR''))]), delimited_parser\<lparr>inref := Some True\<rparr>)"
    by (simp add: parser_defs ris_defs delimited_parser_def)
  have b: "ustr ''AU  - Doe John; Roe Jane''
      = (if [ustr ''TY  - JOUR''] = [] then lstrip lstrip_chars (ustr ''AU  - Doe John; Roe Jane'')
         else ustr ''AU  - Doe John; Roe Jane'')"
    by simp
  have c: "field_line delimited_parser (ustr ''AU  - Doe John; Roe Jane'')"
    by (simp add: field_line_def start_line_def end_line_def tag_line_def ris_defs delimited_parser_def)
  have d: "start_line delimited_parser (ustr ''AU  - Doe John; Roe Jane'')
      \<longrightarrow> inref (delimited_parser\<lparr>inref := Some True\<rparr>) = Some False"
    by (simp add: start_line_def ris_defs delimited_parser_def)
  have e: "mapping delimited_parser (take 2 (ustr ''AU  - Doe John; Roe Jane'')) = Some (ustr ''authors'')"
    by (simp add: ris_defs delimited_parser_def)
  have f: "delimiter_get delimited_parser (take 2 (ustr ''AU  - Doe John; Roe Jane'')) = Some (ustr '';'')"
    by (simp add: delimiter_get_def ris_defs delimited_parser_def)
  show ?thesis
    using delimiter_fault [OF a b c d e f, of "[ustr ''ER  - '']"] by blast
qed

theorem delimiter_fault_counterexample:
  "tag_line delimited_parser (ustr ''ZZ  - a;b'') \<and>
   delimiter_get delimited_parser (take 2 (ustr ''ZZ  - a;b'')) = Some (ustr '';'') \<and>
   tag_line delimited_parser (ustr ''ER  - '') \<and>
   delimiter_get delimited_parser (take 2 (ustr ''ER  - '')) = Some (ustr '';'') \<and>
   fst (parselines delimited_parser [ustr ''TY  - JOUR'', ustr ''ZZ  - a;b'', ustr ''ER  - ''])
     = Inr [[(ustr ''type'', Str (ustr ''JOUR''))]]"
  by (simp add: parser_defs ris_defs tag_line_def delimited_parser_def)


section \<open>An end line with no record open\<close>

lemma same_fault_refl [simp]: "same_fault e e"
  by (cases e) auto

lemma parse_tag_index:
  "rel_sum same_fault (=) (parse_tag self i line data) (parse_tag self j line data)"
  by (auto simp: parse_tag_def Let_def split: option.splits bool.splits sum.splits)

lemma rel_result_fst:
  "rel_sum same_fault (=) a b \<Longrightarrow> rel_sum same_fault (=) (map_sum id fst a) (map_sum id fst b)"
  by (cases a; cases b) auto

text \<open>
  The index of a line matters for two things only: the first line is stripped, and the
  message of a \<open>ParserError\<close> holds the index.
\<close>

lemma loop_index:
  assumes "i = 0 \<or> j = 0 \<longrightarrow> first_stripped ls = ls"
  shows "rel_prod (rel_sum same_fault (=)) (=)
           (parselines_loop i ls contents data self) (parselines_loop j ls contents data self)"
  using assms
proof (induction ls arbitrary: i j contents data self)
  case Nil
  then show ?case by simp
next
  case (Cons raw rest)
  have li: "raw = (if i = 0 then lstrip lstrip_chars raw else raw)"
    and lj: "raw = (if j = 0 then lstrip lstrip_chars raw else raw)"
    using Cons.prems by (auto simp: first_stripped_def)
  have ih: "\<And>c d s. rel_prod (rel_sum same_fault (=)) (=)
      (parselines_loop (Suc i) rest c d s) (parselines_loop (Suc j) rest c d s)"
    by (rule Cons.IH) simp
  show ?case
  proof (cases "tag_line self raw")
    case False
    have "parselines_loop i (raw # rest) contents data self
        = parselines_loop (Suc i) rest contents data self"
      using False li by (intro loop_skip) auto
    moreover have "parselines_loop j (raw # rest) contents data self
        = parselines_loop (Suc j) rest contents data self"
      using False lj by (intro loop_skip) auto
    ultimately show ?thesis using ih by simp
  next
    case True
    note ti = loop_tag_seen [OF li True, of rest contents data]
    note tj = loop_tag_seen [OF lj True, of rest contents data]
    show ?thesis
    proof (cases "parse_tag self i raw data")
      case (Inl e)
      then obtain e' where e': "parse_tag self j raw data = Inl e'" "same_fault e e'"
        using parse_tag_index [of self i raw data j] by (cases "parse_tag self j raw data") auto
      show ?thesis
        unfolding ti tj by (simp add: Inl e')
    next
      case (Inr r)
      then have r': "parse_tag self j raw data = Inr r"
        using parse_tag_index [of self i raw data j] by (cases "parse_tag self j raw data") auto
      obtain ret d1 s1 where r: "r = (ret, d1, s1)"
        by (cases r) auto
      show ?thesis
        unfolding ti tj using ih by (simp add: Inr r' r)
    qed
  qed
qed

text \<open>
  C2. An end line met while no record is open and the working record is empty does not
  raise and changes neither the output, nor the working record, nor \<open>inref\<close>. The parse
  of the whole input then returns the same records as without that line, or raises an
  exception of the same class. (Removing the very first line moves the stripping of the
  first line to the next one, which must not start with a character it removes.)
\<close>

theorem end_line_without_record:
  assumes "parselines_loop 0 pre [] [] (self\<lparr>inref := Some False\<rparr>) = (Inr (contents, []), s)"
    and "inref s = Some False"
    and "line = (if pre = [] then lstrip lstrip_chars raw else raw)"
    and "end_line self line"
    and "pre = [] \<longrightarrow> first_stripped post = post"
  shows "parselines_loop 0 (pre @ [raw]) [] [] (self\<lparr>inref := Some False\<rparr>) = (Inr (contents, []), s) \<and>
         rel_sum same_fault (=)
           (fst (parselines self (pre @ raw # post))) (fst (parselines self (pre @ post)))"
proof -
  obtain x where s: "s = self\<lparr>inref := x\<rparr>"
    using loop_after_prefix(2) [OF assms(1)] by blast
  have l: "line = (if length pre = 0 then lstrip lstrip_chars raw else raw)"
    using assms(3) by simp
  have t: "tag_line s line"
    using assms(4) by (simp add: s end_line_def)
  have "take 2 line \<noteq> START_TAG s" "take 2 line = END_TAG s"
    using assms(4) by (auto simp: s end_line_def)
  then have p: "parse_tag s (length pre) line [] = Inr (Some [], [], s)"
    by (simp add: parse_tag_def)
  have step: "parselines_loop (length pre) (raw # rest) contents [] s
      = parselines_loop (Suc (length pre)) rest contents [] s" for rest
    by (simp add: loop_tag_seen [OF l t] p del: parselines_loop.simps)
  have one: "parselines_loop 0 (pre @ [raw]) [] [] (self\<lparr>inref := Some False\<rparr>) = (Inr (contents, []), s)"
    using step [of "[]"] by (simp add: loop_append [OF assms(1)] del: parselines_loop.simps(2))
  have "rel_prod (rel_sum same_fault (=)) (=)
      (parselines_loop (Suc (length pre)) post contents [] s)
      (parselines_loop (length pre) post contents [] s)"
    by (rule loop_index) (use assms(5) in auto)
  then have "rel_sum same_fault (=)
      (fst (parselines_loop (length pre) (raw # post) contents [] s))
      (fst (parselines_loop (length pre) post contents [] s))"
    unfolding step by (auto simp: rel_prod_sel)
  then have "rel_sum same_fault (=)
      (fst (parselines self (pre @ raw # post))) (fst (parselines self (pre @ post)))"
    unfolding loop_after_prefix(1) [OF assms(1)] by (rule rel_result_fst)
  with one show ?thesis by simp
qed

theorem end_line_without_record_witness:
  "parselines_loop 0 ([ustr ''TY  - JOUR'', ustr ''ER  - ''] @ [ustr ''ER  - '']) [] []
       ((example_parser True)\<lparr>inref := Some False\<rparr>)
     = (Inr ([[(ustr ''type'', Str (ustr ''JOUR''))]], []), (example_parser True)\<lparr>inref := Some False\<rparr>) \<and>
   rel_sum same_fault (=)
     (fst (parselines (example_parser True)
        ([ustr ''TY  - JOUR'', ustr ''ER  - ''] @ ustr ''ER  - '' # [ustr ''TY  - BOOK'', ustr ''ER  - ''])))
     (fst (parselines (example_parser True)
        ([ustr ''TY  - JOUR'', ustr ''ER  - ''] @ [ustr ''TY  - BOOK'', ustr ''ER  - ''])))"
proof -
  have a: "parselines_loop 0 [ustr ''TY  - JOUR'', ustr ''ER  - ''] [] []
       ((example_parser True)\<lparr>inref := Some False\<rparr>)
     = (Inr ([[(ustr ''type'', Str (ustr ''JOUR''))]], []), (example_parser True)\<lparr>inref := Some False\<rparr>)"
    by (simp add: parser_defs ris_defs)
  have b: "inref ((example_parser True)\<lparr>inref := Some False\<rparr>) = Some False"
    by simp
  have c: "ustr ''ER  - ''
      = (if [ustr ''TY  - JOUR'', ustr ''ER  - ''] = [] then lstrip lstrip_chars (ustr ''ER  - '')
         else ustr ''ER  - '')"
    by simp
  have d: "end_line (example_parser True) (ustr ''ER  - '')"
    by (simp add: end_line_def tag_line_def ris_defs)
  have e: "[ustr ''TY  - JOUR'', ustr ''ER  - ''] = []
      \<longrightarrow> first_stripped [ustr ''TY  - BOOK'', ustr ''ER  - ''] = [ustr ''TY  - BOOK'', ustr ''ER  - '']"
    by simp
  show ?thesis
    by (rule end_line_without_record [OF a b c d e])
qed

theorem end_line_without_record_counterexample:
  "parselines_loop 0 [ustr ''AU  - Doe John''] [] [] ((example_parser True)\<lparr>inref := Some False\<rparr>)
     = (Inr ([], [(ustr ''authors'', StrList [ustr ''Doe John''])]),
        (example_parser True)\<lparr>inref := Some False\<rparr>) \<and>
   end_line (example_parser True) (ustr ''ER  - '') \<and>
   fst (parselines (example_parser True) [ustr ''AU  - Doe John'', ustr ''ER  - ''])
     = Inr [[(ustr ''authors'', StrList [ustr ''Doe John''])]] \<and>
   fst (parselines (example_parser True) [ustr ''AU  - Doe John'']) = Inr []"
  by (simp add: parser_defs ris_defs end_line_def tag_line_def)


section \<open>Well-formed input\<close>

lemma list_fields_ok_inref [simp]:
  "list_fields_ok (self\<lparr>inref := x\<rparr>) data = list_fields_ok self data"
  by (simp add: list_fields_ok_def)

lemma list_fields_ok_empty [simp]: "list_fields_ok self []"
  by (simp add: list_fields_ok_def)

lemma add_list_tag_ok:
  assumes "map_of data name = None \<or> (\<exists>l. map_of data name = Some (StrList l))"
  shows "\<exists>l. add_list_tag name val data = Inr (AList.update name (StrList l) data)"
  using assms by (cases val) (auto simp: add_list_tag_def Let_def)

lemma add_single_tag_cases:
  "add_single_tag self name val data = data \<and> map_of data name \<noteq> None \<or>
   add_single_tag self name val data = data @ [(name, val)] \<and> map_of data name = None"
  by (auto simp: add_single_tag_def setdefault_def split: option.splits)

text \<open>
  A field is added without a fault when its tag has no delimiter and no field is shared
  between a list tag and another tag; the working record is not empty afterwards.
\<close>

lemma add_tag_ok:
  assumes m: "mapping self t = Some n"
    and dl: "delimiter_get self t = None"
    and clash: "\<forall>t \<in> set (list_tags self). \<forall>u. u \<notin> set (list_tags self) \<longrightarrow>
                  mapping self u = None \<or> mapping self u \<noteq> mapping self t"
    and ok: "list_fields_ok self data"
  shows "\<exists>data'. add_tag self t line data = Inr data' \<and> list_fields_ok self data' \<and> data' \<noteq> []"
proof (cases "t \<in> set (list_tags self)")
  case True
  have "map_of data n = None \<or> (\<exists>l. map_of data n = Some (StrList l))"
    using ok True m by (cases "map_of data n") (auto simp: list_fields_ok_def)
  then obtain l where l: "add_list_tag n (content self line) data = Inr (AList.update n (StrList l) data)"
    using add_list_tag_ok by blast
  have "list_fields_ok self (AList.update n (StrList l) data)"
    using ok unfolding list_fields_ok_def by (auto simp: update_conv' split: if_splits)
  then show ?thesis
    using True m dl l by (simp add: add_tag_def)
next
  case False
  have r: "add_tag self t line data = Inr (add_single_tag self n (content self line) data)"
    using False m dl by (simp add: add_tag_def)
  have diff: "n' \<noteq> n" if "t' \<in> set (list_tags self)" "mapping self t' = Some n'" for t' n'
    using clash that False m by (metis option.discI option.inject)
  consider "add_single_tag self n (content self line) data = data" "map_of data n \<noteq> None"
    | "add_single_tag self n (content self line) data = data @ [(n, content self line)]"
    using add_single_tag_cases [of self n "content self line" data] by blast
  then show ?thesis
  proof cases
    case 1
    then have "data \<noteq> []" by auto
    then show ?thesis using r 1 ok by simp
  next
    case 2
    have same: "map_of (data @ [(n, content self line)]) n' = map_of data n'" if "n' \<noteq> n" for n'
      using that by (simp add: map_add_def split: option.splits)
    have "list_fields_ok self (data @ [(n, content self line)])"
      unfolding list_fields_ok_def
    proof (intro ballI allI impI)
      fix t' n' v
      assume t': "t' \<in> set (list_tags self)"
        and "mapping self t' = Some n' \<and> map_of (data @ [(n, content self line)]) n' = Some v"
      then have "mapping self t' = Some n'" "map_of data n' = Some v"
        using diff [OF t'] same by auto
      then show "\<exists>l. v = StrList l"
        using ok t' unfolding list_fields_ok_def by blast
    qed
    then show ?thesis using r 2 by simp
  qed
qed

text \<open>
  The loop on lines whose start and end lines alternate: it does not raise, and it
  appends one record for each end line.
\<close>

lemma loop_alternating:
  assumes "alternating self b ls"
    and start: "mapping self (START_TAG self) \<noteq> None"
    and "\<forall>l \<in> set ls. field_line self l \<longrightarrow> delimiter_get self (take 2 l) = None"
    and clash: "\<forall>t \<in> set (list_tags self). \<forall>u. u \<notin> set (list_tags self) \<longrightarrow>
                  mapping self u = None \<or> mapping self u \<noteq> mapping self t"
    and "list_fields_ok self data"
    and "b \<longrightarrow> data \<noteq> []"
    and "i = 0 \<longrightarrow> first_stripped ls = ls"
  shows "\<exists>more data' s'.
           parselines_loop i ls contents data (self\<lparr>inref := Some b\<rparr>) = (Inr (contents @ more, data'), s') \<and>
           length more = length (filter (end_line self) ls)"
  using assms(1,3,5,6,7)
proof (induction ls arbitrary: i b contents data)
  case Nil
  then show ?case by simp
next
  case (Cons raw rest)
  let ?S = "self\<lparr>inref := Some b\<rparr>"
  have li: "raw = (if i = 0 then lstrip lstrip_chars raw else raw)"
    using Cons.prems(5) by (auto simp: first_stripped_def)
  have dl: "\<forall>l \<in> set rest. field_line self l \<longrightarrow> delimiter_get self (take 2 l) = None"
    using Cons.prems(2) by simp
  have ih: "\<And>b' c d. alternating self b' rest \<Longrightarrow> list_fields_ok self d \<Longrightarrow> (b' \<longrightarrow> d \<noteq> []) \<Longrightarrow>
      \<exists>more data' s'.
        parselines_loop (Suc i) rest c d (self\<lparr>inref := Some b'\<rparr>) = (Inr (c @ more, data'), s') \<and>
        length more = length (filter (end_line self) rest)"
    using Cons.IH [OF _ dl] by simp
  show ?case
  proof (cases "tag_line self raw")
    case False
    then have ne: "\<not> start_line self raw" "\<not> end_line self raw"
      by (auto simp: start_line_def end_line_def)
    have "parselines_loop i (raw # rest) contents data ?S = parselines_loop (Suc i) rest contents data ?S"
      using False li by (intro loop_skip) auto
    moreover have "alternating self b rest"
      using Cons.prems(1) ne by simp
    ultimately show ?thesis
      using ih [of b data contents] Cons.prems(3,4) ne by simp
  next
    case True
    have T: "tag_line ?S raw" using True by simp
    note unfold = loop_tag_seen [OF li T, of rest contents data]
    consider (is_start) "start_line self raw" | (is_end) "end_line self raw"
      | (other) "\<not> start_line self raw" "\<not> end_line self raw"
      by blast
    then show ?thesis
    proof cases
      case is_start
      then have ne: "\<not> end_line self raw"
        by (auto simp: start_line_def end_line_def)
      have b: "\<not> b" and alt: "alternating self True rest"
        using Cons.prems(1) is_start by auto
      obtain n where n: "mapping self (take 2 raw) = Some n"
        using is_start assms(2) by (auto simp: start_line_def)
      have "delimiter_get self (take 2 raw) = None"
        using Cons.prems(2) is_start ne True by (simp add: field_line_def)
      from add_tag_ok [OF n this clash Cons.prems(3), of raw]
      obtain d' where d': "add_tag self (take 2 raw) raw data = Inr d'" "list_fields_ok self d'" "d' \<noteq> []"
        by blast
      have "parse_tag ?S i raw data = Inr (None, d', self\<lparr>inref := Some True\<rparr>)"
        using is_start b d' by (simp add: parse_tag_def start_line_def)
      then have "parselines_loop i (raw # rest) contents data ?S
          = parselines_loop (Suc i) rest contents d' (self\<lparr>inref := Some True\<rparr>)"
        unfolding unfold by simp
      then show ?thesis
        using ih [OF alt d'(2), of contents] d'(3) ne by simp
    next
      case is_end
      have b: "b" and alt: "alternating self False rest"
        using Cons.prems(1) is_end by (auto simp: start_line_def end_line_def split: if_splits)
      have d: "data \<noteq> []"
        using b Cons.prems(4) by simp
      have "take 2 raw \<noteq> START_TAG ?S" "take 2 raw = END_TAG ?S"
        using is_end by (auto simp: end_line_def)
      then have "parse_tag ?S i raw data = Inr (Some data, data, ?S)"
        by (simp add: parse_tag_def)
      then have "parselines_loop i (raw # rest) contents data ?S
          = parselines_loop (Suc i) rest (contents @ [data]) [] (self\<lparr>inref := Some False\<rparr>)"
        unfolding unfold using d by simp
      moreover obtain more data' s' where
        "parselines_loop (Suc i) rest (contents @ [data]) [] (self\<lparr>inref := Some False\<rparr>)
           = (Inr ((contents @ [data]) @ more, data'), s')"
        "length more = length (filter (end_line self) rest)"
        using ih [OF alt, of "[]" "contents @ [data]"] by auto
      ultimately have "parselines_loop i (raw # rest) contents data ?S
            = (Inr (contents @ (data # more), data'), s') \<and>
          length (data # more) = length (filter (end_line self) (raw # rest))"
        using is_end by simp
      then show ?thesis by blast
    next
      case other
      have alt: "alternating self b rest"
        using Cons.prems(1) other by simp
      have tags: "take 2 raw \<noteq> START_TAG ?S" "take 2 raw \<noteq> END_TAG ?S"
        using other True by (auto simp: start_line_def end_line_def)
      show ?thesis
      proof (cases "mapping self (take 2 raw)")
        case None
        then have "parse_tag ?S i raw data = Inr (None, data, ?S)"
          using tags by (simp add: parse_tag_def)
        then have "parselines_loop i (raw # rest) contents data ?S
            = parselines_loop (Suc i) rest contents data ?S"
          unfolding unfold by simp
        then show ?thesis
          using ih [OF alt Cons.prems(3,4), of contents] other by simp
      next
        case (Some n)
        have "delimiter_get self (take 2 raw) = None"
          using Cons.prems(2) other True Some by (simp add: field_line_def)
        from add_tag_ok [OF Some this clash Cons.prems(3), of raw]
        obtain d' where d': "add_tag self (take 2 raw) raw data = Inr d'" "list_fields_ok self d'" "d' \<noteq> []"
          by blast
        have "parse_tag ?S i raw data = Inr (None, d', ?S)"
          using tags Some d' by (simp add: parse_tag_def)
        then have "parselines_loop i (raw # rest) contents data ?S
            = parselines_loop (Suc i) rest contents d' ?S"
          unfolding unfold by simp
        then show ?thesis
          using ih [OF alt d'(2), of contents] d'(3) other by simp
      qed
    qed
  qed
qed

lemma loop_grows:
  "parselines_loop i ls contents data self = (Inr (contents', data'), self') \<Longrightarrow>
   \<exists>more. contents' = contents @ more"
proof (induction ls arbitrary: i contents data self)
  case Nil
  then show ?case by simp
next
  case (Cons raw rest)
  define line where "line = (if i = 0 then lstrip lstrip_chars raw else raw)"
  show ?case
  proof (cases "strip line \<noteq> [] \<and> pattern self line")
    case False
    then have "parselines_loop (Suc i) rest contents data self = (Inr (contents', data'), self')"
      using Cons.prems by (auto simp: line_def Let_def split: if_splits)
    then show ?thesis by (rule Cons.IH)
  next
    case True
    show ?thesis
    proof (cases "parse_tag self i line data")
      case (Inl e)
      then show ?thesis
        using Cons.prems True by (auto simp: line_def Let_def split: if_splits)
    next
      case (Inr r)
      obtain ret d1 s1 where r: "r = (ret, d1, s1)"
        by (cases r) auto
      show ?thesis
      proof (cases "truthy_dict ret")
        case t: True
        then have "parselines_loop (Suc i) rest (contents @ [d1]) [] (s1\<lparr>inref := Some False\<rparr>)
            = (Inr (contents', data'), self')"
          using Cons.prems True Inr r by (auto simp: line_def Let_def split: if_splits)
        from Cons.IH [OF this] show ?thesis by auto
      next
        case f: False
        then have "parselines_loop (Suc i) rest contents d1 s1 = (Inr (contents', data'), self')"
          using Cons.prems True Inr r by (auto simp: line_def Let_def split: if_splits)
        then show ?thesis by (rule Cons.IH)
      qed
    qed
  qed
qed

lemma alternating_take: "alternating self b ls \<Longrightarrow> alternating self b (take k ls)"
proof (induction ls arbitrary: b k)
  case Nil
  then show ?case by simp
next
  case (Cons l ls)
  then show ?case by (cases k) (auto split: if_splits)
qed

lemma first_stripped_take: "first_stripped (take k ls) = take k (first_stripped ls)"
  by (cases ls; cases k) (simp_all add: first_stripped_def)

lemma length_first_stripped [simp]: "length (first_stripped ls) = length ls"
  by (cases ls) (simp_all add: first_stripped_def)

lemma first_stripped_idem: "first_stripped (first_stripped ls) = first_stripped ls"
  by (cases ls) (simp_all add: first_stripped_def lstrip_def)

text \<open>
  C1. Let the start and end lines of the input alternate, beginning with a start line
  (the first line taken as the loop sees it): \<open>N\<close> pairs, not nested, and no end line
  outside a record. Let \<open>START_TAG\<close> be mapped, let no line whose field is added have a
  delimiter entry other than \<open>None\<close>, and let no field be shared between a list tag and
  another tag. Then the parse returns \<open>N\<close> records, one for each end line, and after
  any number of lines the output so far consists of the first records of the final
  output, one for each end line read: the records are in the order of their end lines.
\<close>

theorem parse_alternating_pairs:
  assumes alt: "alternating self False (first_stripped lines)"
    and start: "mapping self (START_TAG self) \<noteq> None"
    and dl: "\<forall>l \<in> set (first_stripped lines). field_line self l \<longrightarrow> delimiter_get self (take 2 l) = None"
    and clash: "\<forall>t \<in> set (list_tags self). \<forall>u. u \<notin> set (list_tags self) \<longrightarrow>
                  mapping self u = None \<or> mapping self u \<noteq> mapping self t"
  shows "\<exists>records. fst (parselines self lines) = Inr records \<and>
           length records = length (filter (end_line self) (first_stripped lines)) \<and>
           (\<forall>k. fst (parselines self (take k lines))
                  = Inr (take (length (filter (end_line self) (take k (first_stripped lines)))) records))"
proof -
  have run: "\<exists>more data' s'.
      parselines_loop 0 (take k lines) [] [] (self\<lparr>inref := Some False\<rparr>) = (Inr (more, data'), s') \<and>
      length more = length (filter (end_line self) (take k (first_stripped lines)))" for k
  proof -
    have "alternating self False (take k (first_stripped lines))"
      using alt by (rule alternating_take)
    moreover have "\<forall>l \<in> set (take k (first_stripped lines)).
        field_line self l \<longrightarrow> delimiter_get self (take 2 l) = None"
      using dl by (meson in_set_takeD)
    moreover have "first_stripped (take k (first_stripped lines)) = take k (first_stripped lines)"
      by (simp add: first_stripped_take first_stripped_idem)
    ultimately have "\<exists>more data' s'.
        parselines_loop 0 (take k (first_stripped lines)) [] [] (self\<lparr>inref := Some False\<rparr>)
          = (Inr ([] @ more, data'), s') \<and>
        length more = length (filter (end_line self) (take k (first_stripped lines)))"
      using start clash by (intro loop_alternating) auto
    then show ?thesis
      using loop_first_stripped [of "take k lines"] by (simp add: first_stripped_take)
  qed
  obtain records data' s' where
    whole: "parselines_loop 0 lines [] [] (self\<lparr>inref := Some False\<rparr>) = (Inr (records, data'), s')"
    and len: "length records = length (filter (end_line self) (first_stripped lines))"
  proof -
    have "take (length lines) (first_stripped lines) = first_stripped lines"
      by simp
    then show ?thesis
      using run [of "length lines"] that by auto
  qed
  have res: "fst (parselines self lines) = Inr records"
    by (simp add: parselines_loop_result whole)
  have pre: "fst (parselines self (take k lines))
      = Inr (take (length (filter (end_line self) (take k (first_stripped lines)))) records)" for k
  proof -
    obtain more dk sk where
      k: "parselines_loop 0 (take k lines) [] [] (self\<lparr>inref := Some False\<rparr>) = (Inr (more, dk), sk)"
      and lk: "length more = length (filter (end_line self) (take k (first_stripped lines)))"
      using run [of k] by auto
    have "parselines_loop 0 (take k lines @ drop k lines) [] [] (self\<lparr>inref := Some False\<rparr>)
        = parselines_loop (0 + length (take k lines)) (drop k lines) more dk sk"
      by (rule loop_append [OF k])
    then have "parselines_loop (0 + length (take k lines)) (drop k lines) more dk sk
        = (Inr (records, data'), s')"
      using whole by simp
    then obtain m where "records = more @ m"
      using loop_grows by blast
    then have "take (length more) records = more"
      by simp
    then show ?thesis
      by (simp add: parselines_loop_result k lk [symmetric])
  qed
  show ?thesis
    using res len pre by blast
qed

theorem parse_alternating_pairs_witness:
  "\<exists>records.
     fst (parselines (example_parser True)
            [ustr ''TY  - JOUR'', ustr ''AU  - Doe John'', ustr ''ER  - '', ustr '''',
             ustr ''TY  - BOOK'', ustr ''ER  - '']) = Inr records \<and>
     length records = 2 \<and>
     fst (parselines (example_parser True)
            (take 4 [ustr ''TY  - JOUR'', ustr ''AU  - Doe John'', ustr ''ER  - '', ustr '''',
                     ustr ''TY  - BOOK'', ustr ''ER  - ''])) = Inr (take 1 records)"
proof -
  let ?L = "[ustr ''TY  - JOUR'', ustr ''AU  - Doe John'', ustr ''ER  - '', ustr '''',
             ustr ''TY  - BOOK'', ustr ''ER  - '']"
  have fs: "first_stripped ?L = ?L"
    by (simp add: first_stripped_def lstrip_def lstrip_chars_def ustr_def)
  have cls: "start_line (example_parser True) (ustr ''TY  - JOUR'')"
    "\<not> start_line (example_parser True) (ustr ''AU  - Doe John'')"
    "\<not> end_line (example_parser True) (ustr ''AU  - Doe John'')"
    "\<not> start_line (example_parser True) (ustr ''ER  - '')"
    "end_line (example_parser True) (ustr ''ER  - '')"
    "\<not> start_line (example_parser True) (ustr '''')"
    "\<not> end_line (example_parser True) (ustr '''')"
    "start_line (example_parser True) (ustr ''TY  - BOOK'')"
    "\<not> end_line (example_parser True) (ustr ''TY  - JOUR'')"
    "\<not> end_line (example_parser True) (ustr ''TY  - BOOK'')"
    by (simp_all add: start_line_def end_line_def tag_line_def ris_defs)
  have a: "alternating (example_parser True) False (first_stripped ?L)"
    unfolding fs by (simp add: cls)
  have b: "mapping (example_parser True) (START_TAG (example_parser True)) \<noteq> None"
    by (simp add: ris_defs)
  have c: "\<forall>l \<in> set (first_stripped ?L). field_line (example_parser True) l
      \<longrightarrow> delimiter_get (example_parser True) (take 2 l) = None"
    by (simp add: delimiter_get_def example_parser_def RisParser_def)
  have d: "\<forall>t \<in> set (list_tags (example_parser True)). \<forall>u. u \<notin> set (list_tags (example_parser True)) \<longrightarrow>
      mapping (example_parser True) u = None \<or>
      mapping (example_parser True) u \<noteq> mapping (example_parser True) t"
    by (simp add: ris_defs)
  have n: "length (filter (end_line (example_parser True)) (first_stripped ?L)) = 2"
    unfolding fs by (simp add: cls)
  have n4: "length (filter (end_line (example_parser True)) (take 4 (first_stripped ?L))) = 1"
    unfolding fs by (simp add: cls)
  obtain records where r: "fst (parselines (example_parser True) ?L) = Inr records"
    "length records = length (filter (end_line (example_parser True)) (first_stripped ?L))"
    "\<And>k. fst (parselines (example_parser True) (take k ?L))
       = Inr (take (length (filter (end_line (example_parser True)) (take k (first_stripped ?L)))) records)"
    using parse_alternating_pairs [OF a b c d] by blast
  have "fst (parselines (example_parser True) (take 4 ?L)) = Inr (take 1 records)"
    using r(3) [of 4] unfolding n4 .
  then show ?thesis
    using r(1,2) n by auto
qed

theorem parse_alternating_pairs_counterexample:
  "alternating delimited_parser False
     (first_stripped [ustr ''TY  - JOUR'', ustr ''AU  - Doe John; Roe Jane'', ustr ''ER  - '']) \<and>
   length (filter (end_line delimited_parser)
     (first_stripped [ustr ''TY  - JOUR'', ustr ''AU  - Doe John; Roe Jane'', ustr ''ER  - ''])) = 1 \<and>
   mapping delimited_parser (START_TAG delimited_parser) = Some (ustr ''type'') \<and>
   fst (parselines delimited_parser
          [ustr ''TY  - JOUR'', ustr ''AU  - Doe John; Roe Jane'', ustr ''ER  - ''])
     = Inl PyException"
  by (simp add: parser_defs ris_defs delimited_parser_def first_stripped_def start_line_def
      end_line_def tag_line_def)


section \<open>List fields within a record\<close>

lemma tagged_with_inref [simp]: "tagged_with (self\<lparr>inref := x\<rparr>) tag l = tagged_with self tag l"
  by (simp add: tagged_with_def)

lemma add_tag_keeps_ok:
  assumes clash: "\<forall>t \<in> set (list_tags self). \<forall>u. u \<notin> set (list_tags self) \<longrightarrow>
                  mapping self u = None \<or> mapping self u \<noteq> mapping self t"
    and ok: "list_fields_ok self data"
    and res: "add_tag self t line data = Inr data'"
  shows "list_fields_ok self data'"
proof -
  obtain n where n: "mapping self t = Some n"
    using res by (cases "mapping self t") (auto simp: add_tag_def)
  have dl: "delimiter_get self t = None"
    using res n by (cases "delimiter_get self t") (auto simp: add_tag_def)
  from add_tag_ok [OF n dl clash ok, of line] res show ?thesis
    by auto
qed

lemma parse_tag_keeps_ok:
  assumes clash: "\<forall>t \<in> set (list_tags self). \<forall>u. u \<notin> set (list_tags self) \<longrightarrow>
                  mapping self u = None \<or> mapping self u \<noteq> mapping self t"
    and ok: "list_fields_ok self data"
    and res: "parse_tag (self\<lparr>inref := x\<rparr>) i line data = Inr (ret, data', s')"
  shows "list_fields_ok self data'"
proof -
  have "data' = data \<or> add_tag self (take 2 line) line data = Inr data'"
    using res
    by (auto simp: parse_tag_def Let_def split: if_splits option.splits bool.splits sum.splits)
  then show ?thesis
    using ok add_tag_keeps_ok [OF clash ok] by auto
qed

text \<open>
  When no field is shared between a list tag and another tag, every list field of the
  working record holds a list, at every point of a parse.
\<close>

lemma loop_keeps_ok:
  assumes clash: "\<forall>t \<in> set (list_tags self). \<forall>u. u \<notin> set (list_tags self) \<longrightarrow>
                  mapping self u = None \<or> mapping self u \<noteq> mapping self t"
  shows "list_fields_ok self data \<Longrightarrow>
         parselines_loop i ls contents data (self\<lparr>inref := x\<rparr>) = (Inr (contents', data'), s') \<Longrightarrow>
         list_fields_ok self data'"
proof (induction ls arbitrary: i contents data x)
  case Nil
  then show ?case by simp
next
  case (Cons raw rest)
  let ?S = "self\<lparr>inref := x\<rparr>"
  define line where "line = (if i = 0 then lstrip lstrip_chars raw else raw)"
  show ?case
  proof (cases "tag_line ?S line")
    case False
    then have "parselines_loop (Suc i) rest contents data ?S = (Inr (contents', data'), s')"
      using Cons.prems(2) by (auto simp: line_def tag_line_def Let_def split: if_splits)
    from Cons.IH [OF Cons.prems(1) this] show ?thesis .
  next
    case True
    note unfold = loop_tag_seen [OF line_def True, of rest contents data]
    show ?thesis
    proof (cases "parse_tag ?S i line data")
      case (Inl e)
      then show ?thesis
        using Cons.prems(2) unfolding unfold by simp
    next
      case (Inr r)
      obtain ret d1 s1 where r: "r = (ret, d1, s1)"
        by (cases r) auto
      obtain y where y: "s1 = self\<lparr>inref := y\<rparr>"
        using parse_tag_self [of ?S i line data ret d1 s1] Inr r by auto
      have ok1: "list_fields_ok self d1"
        using parse_tag_keeps_ok [OF clash Cons.prems(1)] Inr r by blast
      show ?thesis
      proof (cases "truthy_dict ret")
        case t: True
        then have "parselines_loop (Suc i) rest (contents @ [d1]) [] (self\<lparr>inref := Some False\<rparr>)
            = (Inr (contents', data'), s')"
          using Cons.prems(2) Inr r y unfolding unfold by simp
        from Cons.IH [OF _ this] show ?thesis by simp
      next
        case f: False
        then have "parselines_loop (Suc i) rest contents d1 (self\<lparr>inref := y\<rparr>)
            = (Inr (contents', data'), s')"
          using Cons.prems(2) Inr r y unfolding unfold by simp
        from Cons.IH [OF ok1 this] show ?thesis .
      qed
    qed
  qed
qed

lemma add_tag_other_field:
  assumes "add_tag self u line data = Inr data'" and "mapping self u = Some m" and "m \<noteq> name"
  shows "map_of data' name = map_of data name"
proof (cases "u \<in> set (list_tags self)")
  case True
  then have "add_list_tag m (content self line) data = Inr data'"
    using assms(1,2) by (auto simp: add_tag_def Let_def split: if_splits)
  then obtain v where "data' = AList.update m v data"
    by (auto simp: add_list_tag_def Let_def split: if_splits option.splits pyval.splits)
  then show ?thesis
    using assms(3) by (simp add: update_conv')
next
  case False
  then have d: "data' = add_single_tag self m (content self line) data"
    using assms(1,2) by (auto simp: add_tag_def Let_def split: if_splits)
  show ?thesis
    using add_single_tag_cases [of self m "content self line" data] assms(3)
    unfolding d by (auto simp: map_add_def split: option.splits)
qed

lemma add_tag_list_field:
  assumes "u \<in> set (list_tags self)" and "mapping self u = Some name"
    and "delimiter_get self u = None"
    and "map_of data name = None \<or> (\<exists>p. map_of data name = Some (StrList p))"
  shows "\<exists>data'. add_tag self u line data = Inr data' \<and>
           map_of data' name
             = Some (StrList ((case map_of data name of Some (StrList p) \<Rightarrow> p | _ \<Rightarrow> [])
                               @ list_values self line))"
proof -
  have a: "add_tag self u line data = add_list_tag name (content self line) data"
    using assms(1-3) by (simp add: add_tag_def)
  show ?thesis
    using assms(4) unfolding a
    by (cases "content self line")
      (auto simp: add_list_tag_def list_values_def update_conv' Let_def)
qed

text \<open>
  The loop on lines that hold no start and no end line: it does not raise, it emits
  nothing, and the lines of a list tag append their values, in order, to what the field
  held.
\<close>

lemma loop_list_field:
  assumes tag: "tag \<in> set (list_tags self)" "mapping self tag = Some name"
    and clash: "\<forall>t \<in> set (list_tags self). \<forall>u. u \<notin> set (list_tags self) \<longrightarrow>
                  mapping self u = None \<or> mapping self u \<noteq> mapping self t"
  shows "\<forall>l \<in> set ls. \<not> start_line self l \<and> \<not> end_line self l \<Longrightarrow>
         \<forall>l \<in> set ls. field_line self l \<longrightarrow> delimiter_get self (take 2 l) = None \<Longrightarrow>
         \<forall>l \<in> set ls. tag_line self l \<and> mapping self (take 2 l) = Some name \<longrightarrow> take 2 l = tag \<Longrightarrow>
         list_fields_ok self data \<Longrightarrow>
         i = 0 \<longrightarrow> first_stripped ls = ls \<Longrightarrow>
         \<exists>data'. parselines_loop i ls contents data (self\<lparr>inref := x\<rparr>)
                    = (Inr (contents, data'), self\<lparr>inref := x\<rparr>) \<and>
           list_fields_ok self data' \<and>
           map_of data' name
             = (if filter (tagged_with self tag) ls = [] then map_of data name
                else Some (StrList ((case map_of data name of Some (StrList p) \<Rightarrow> p | _ \<Rightarrow> [])
                       @ concat (map (list_values self) (filter (tagged_with self tag) ls)))))"
proof (induction ls arbitrary: i data)
  case Nil
  then show ?case by simp
next
  case (Cons raw rest)
  let ?S = "self\<lparr>inref := x\<rparr>"
  have li: "raw = (if i = 0 then lstrip lstrip_chars raw else raw)"
    using Cons.prems(5) by (auto simp: first_stripped_def)
  have ih: "\<And>d. list_fields_ok self d \<Longrightarrow>
      \<exists>data'. parselines_loop (Suc i) rest contents d ?S = (Inr (contents, data'), ?S) \<and>
        list_fields_ok self data' \<and>
        map_of data' name
          = (if filter (tagged_with self tag) rest = [] then map_of d name
             else Some (StrList ((case map_of d name of Some (StrList p) \<Rightarrow> p | _ \<Rightarrow> [])
                    @ concat (map (list_values self) (filter (tagged_with self tag) rest)))))"
    using Cons.IH [of _ "Suc i"] Cons.prems(1,2,3) by simp
  have ne: "\<not> start_line self raw" "\<not> end_line self raw"
    using Cons.prems(1) by auto
  show ?case
  proof (cases "tag_line self raw")
    case False
    then have nt: "\<not> tagged_with self tag raw"
      by (simp add: tagged_with_def)
    have step: "parselines_loop i (raw # rest) contents data ?S
        = parselines_loop (Suc i) rest contents data ?S"
      using False li by (intro loop_skip) auto
    show ?thesis
      using ih [OF Cons.prems(4)] nt by (auto simp add: step simp del: parselines_loop.simps)
  next
    case True
    have T: "tag_line ?S raw" using True by simp
    note unfold = loop_tag_seen [OF li T, of rest contents data]
    have tags: "take 2 raw \<noteq> START_TAG ?S" "take 2 raw \<noteq> END_TAG ?S"
      using ne True by (auto simp: start_line_def end_line_def)
    show ?thesis
    proof (cases "mapping self (take 2 raw)")
      case None
      then have nt: "\<not> tagged_with self tag raw"
        using tag(2) by (auto simp: tagged_with_def)
      have "parse_tag ?S i raw data = Inr (None, data, ?S)"
        using tags None by (simp add: parse_tag_def)
      then have step: "parselines_loop i (raw # rest) contents data ?S
          = parselines_loop (Suc i) rest contents data ?S"
        unfolding unfold by simp
      show ?thesis
        using ih [OF Cons.prems(4)] nt by (auto simp add: step simp del: parselines_loop.simps)
    next
      case (Some m)
      have dl: "delimiter_get self (take 2 raw) = None"
        using Cons.prems(2) ne True Some by (simp add: field_line_def)
      from add_tag_ok [OF Some dl clash Cons.prems(4), of raw]
      obtain d1 where d1: "add_tag self (take 2 raw) raw data = Inr d1" "list_fields_ok self d1"
        by blast
      have "parse_tag ?S i raw data = Inr (None, d1, ?S)"
        using tags Some d1 by (simp add: parse_tag_def)
      then have step: "parselines_loop i (raw # rest) contents data ?S
          = parselines_loop (Suc i) rest contents d1 ?S"
        unfolding unfold by simp
      from ih [OF d1(2)] obtain data' where
        run: "parselines_loop (Suc i) rest contents d1 ?S = (Inr (contents, data'), ?S)"
        and ok': "list_fields_ok self data'"
        and fld: "map_of data' name
          = (if filter (tagged_with self tag) rest = [] then map_of d1 name
             else Some (StrList ((case map_of d1 name of Some (StrList p) \<Rightarrow> p | _ \<Rightarrow> [])
                    @ concat (map (list_values self) (filter (tagged_with self tag) rest)))))"
        by blast
      show ?thesis
      proof (cases "m = name")
        case False
        then have nt: "\<not> tagged_with self tag raw"
          using tag(2) Some by (auto simp: tagged_with_def)
        have "map_of d1 name = map_of data name"
          using add_tag_other_field [OF d1(1) Some False] .
        then show ?thesis
          using run ok' fld nt by (auto simp add: step simp del: parselines_loop.simps)
      next
        case same: True
        then have eq: "take 2 raw = tag"
          using Cons.prems(3) True Some by simp
        then have t: "tagged_with self tag raw"
          using True by (simp add: tagged_with_def)
        have cur: "map_of data name = None \<or> (\<exists>p. map_of data name = Some (StrList p))"
          using Cons.prems(4) tag by (cases "map_of data name") (auto simp: list_fields_ok_def)
        have "map_of d1 name
            = Some (StrList ((case map_of data name of Some (StrList p) \<Rightarrow> p | _ \<Rightarrow> [])
                              @ list_values self raw))"
          using add_tag_list_field [OF tag(1) tag(2) _ cur, of raw] dl d1(1) eq by auto
        then show ?thesis
          using run ok' fld t by (auto simp add: step simp del: parselines_loop.simps)
      qed
    qed
  qed
qed

text \<open>
  C6. Take the lines between two record boundaries (no start and no end line among them)
  and the end line after them, and a list tag that is mapped. Let the working record not
  hold the tag's field before these lines, let no other tag among them be mapped to that
  field, let no line among them whose field is added have a delimiter entry other than
  \<open>None\<close>, and let no field be shared between a list tag and another tag. Then the
  end line emits a record in which the field holds the values of the lines of that tag,
  in the order met: the values \<open>X\<close> then \<open>Y\<close> give \<open>[X, Y]\<close>.
\<close>

theorem list_tag_lines_accumulate:
  assumes prefix: "parselines_loop 0 pre [] [] (self\<lparr>inref := Some False\<rparr>) = (Inr (contents, data), s)"
    and absent: "map_of data name = None"
    and tag: "tag \<in> set (list_tags self)" "mapping self tag = Some name"
    and occurs: "filter (tagged_with self tag) ls \<noteq> []"
    and inside: "\<forall>l \<in> set ls. \<not> start_line self l \<and> \<not> end_line self l"
    and only: "\<forall>l \<in> set ls. tag_line self l \<and> mapping self (take 2 l) = Some name \<longrightarrow> take 2 l = tag"
    and dl: "\<forall>l \<in> set ls. field_line self l \<longrightarrow> delimiter_get self (take 2 l) = None"
    and clash: "\<forall>t \<in> set (list_tags self). \<forall>u. u \<notin> set (list_tags self) \<longrightarrow>
                  mapping self u = None \<or> mapping self u \<noteq> mapping self t"
    and first: "pre = [] \<longrightarrow> first_stripped ls = ls"
    and closing: "end_line self e"
  shows "\<exists>rcd. fst (parselines self (pre @ ls @ [e])) = Inr (contents @ [rcd]) \<and>
           map_of rcd name
             = Some (StrList (concat (map (list_values self) (filter (tagged_with self tag) ls))))"
proof -
  obtain x where s: "s = self\<lparr>inref := x\<rparr>"
    using loop_after_prefix(2) [OF prefix] by blast
  have ok: "list_fields_ok self data"
    using loop_keeps_ok [OF clash _ prefix] by simp
  have i: "length pre = 0 \<longrightarrow> first_stripped ls = ls"
    using first by simp
  from loop_list_field [OF tag clash inside dl only ok i, of contents x]
  obtain rcd where
    run: "parselines_loop (length pre) ls contents data s = (Inr (contents, rcd), s)"
    and fld: "map_of rcd name
        = Some (StrList (concat (map (list_values self) (filter (tagged_with self tag) ls))))"
    using occurs absent by (auto simp: s)
  have "ls \<noteq> []"
    using occurs by auto
  then have e: "e = (if length pre + length ls = 0 then lstrip lstrip_chars e else e)"
    by simp
  have t: "tag_line s e"
    using closing by (simp add: s end_line_def)
  have "take 2 e \<noteq> START_TAG s" "take 2 e = END_TAG s"
    using closing by (auto simp: s end_line_def)
  then have p: "parse_tag s (length pre + length ls) e rcd = Inr (Some rcd, rcd, s)"
    by (simp add: parse_tag_def)
  have "rcd \<noteq> []"
    using fld by auto
  then have last: "parselines_loop (length pre + length ls) [e] contents rcd s
      = (Inr (contents @ [rcd], []), s\<lparr>inref := Some False\<rparr>)"
    by (simp add: loop_tag_seen [OF e t] p del: parselines_loop.simps(2))
  have "parselines_loop (length pre) (ls @ [e]) contents data s
      = (Inr (contents @ [rcd], []), s\<lparr>inref := Some False\<rparr>)"
    using loop_append [OF run, of "[e]"] last by simp
  then have "fst (parselines self (pre @ ls @ [e])) = Inr (contents @ [rcd])"
    by (simp add: loop_after_prefix(1) [OF prefix])
  with fld show ?thesis by blast
qed

theorem list_tag_lines_accumulate_witness:
  "\<exists>rcd. fst (parselines (example_parser True)
            ([ustr ''TY  - JOUR''] @ [ustr ''AU  - X'', ustr ''PY  - 2020'', ustr ''AU  - Y'']
               @ [ustr ''ER  - ''])) = Inr ([] @ [rcd]) \<and>
         map_of rcd (ustr ''authors'') = Some (StrList [ustr ''X'', ustr ''Y''])"
proof -
  let ?P = "example_parser True"
  let ?ls = "[ustr ''AU  - X'', ustr ''PY  - 2020'', ustr ''AU  - Y'']"
  have a: "parselines_loop 0 [ustr ''TY  - JOUR''] [] [] (?P\<lparr>inref := Some False\<rparr>)
      = (Inr ([], [(ustr ''type'', Str (ustr ''JOUR''))]), ?P\<lparr>inref := Some True\<rparr>)"
    by (simp add: parser_defs ris_defs)
  have b: "map_of [(ustr ''type'', Str (ustr ''JOUR''))] (ustr ''authors'') = None"
    by (simp add: ustr_def)
  have c: "ustr ''AU'' \<in> set (list_tags ?P)" "mapping ?P (ustr ''AU'') = Some (ustr ''authors'')"
    by (simp_all add: ris_defs)
  have cls: "tag_line ?P (ustr ''AU  - X'')" "tag_line ?P (ustr ''PY  - 2020'')"
    "tag_line ?P (ustr ''AU  - Y'')"
    by (simp_all add: tag_line_def ris_defs)
  have tk: "take 2 (ustr ''AU  - X'') = ustr ''AU''" "take 2 (ustr ''PY  - 2020'') = ustr ''PY''"
    "take 2 (ustr ''AU  - Y'') = ustr ''AU''" "ustr ''PY'' \<noteq> ustr ''AU''"
    by (simp_all add: ustr_def)
  have vals: "list_values ?P (ustr ''AU  - X'') = [ustr ''X'']"
    "list_values ?P (ustr ''AU  - Y'') = [ustr ''Y'']"
    by (simp_all add: list_values_def ris_defs)
  have flt: "filter (tagged_with ?P (ustr ''AU'')) ?ls = [ustr ''AU  - X'', ustr ''AU  - Y'']"
    by (simp add: tagged_with_def cls tk)
  have d: "filter (tagged_with ?P (ustr ''AU'')) ?ls \<noteq> []"
    unfolding flt by simp
  have se: "\<forall>l \<in> set ?ls. \<not> start_line ?P l \<and> \<not> end_line ?P l"
    by (simp add: start_line_def end_line_def tk) (simp add: ris_defs)
  have only: "\<forall>l \<in> set ?ls. tag_line ?P l \<and> mapping ?P (take 2 l) = Some (ustr ''authors'')
      \<longrightarrow> take 2 l = ustr ''AU''"
    by (simp add: tk) (simp add: ris_defs)
  have dl: "\<forall>l \<in> set ?ls. field_line ?P l \<longrightarrow> delimiter_get ?P (take 2 l) = None"
    by (simp add: delimiter_get_def example_parser_def RisParser_def)
  have clash: "\<forall>t \<in> set (list_tags ?P). \<forall>u. u \<notin> set (list_tags ?P) \<longrightarrow>
      mapping ?P u = None \<or> mapping ?P u \<noteq> mapping ?P t"
    by (simp add: ris_defs)
  have first: "[ustr ''TY  - JOUR''] = [] \<longrightarrow> first_stripped ?ls = ?ls"
    by simp
  have e: "end_line ?P (ustr ''ER  - '')"
    by (simp add: end_line_def tag_line_def ris_defs)
  show ?thesis
    using list_tag_lines_accumulate [OF a b c d se only dl clash first e]
    unfolding flt by (simp add: vals)
qed

theorem list_tag_lines_accumulate_counterexample:
  "fst (parselines (example_parser True)
          [ustr ''AU  - W'', ustr ''TY  - JOUR'', ustr ''AU  - X'', ustr ''AU  - Y'', ustr ''ER  - ''])
     = Inr [[(ustr ''authors'', StrList [ustr ''W'', ustr ''X'', ustr ''Y'']),
             (ustr ''type'', Str (ustr ''JOUR''))]] \<and>
   fst (parselines delimited_parser
          [ustr ''TY  - JOUR'', ustr ''AU  - X'', ustr ''AU  - Y'', ustr ''ER  - ''])
     = Inl PyException"
  by (simp add: parser_defs ris_defs delimited_parser_def)

end
